theory Spec2Isabelle
  imports Main "HOL-Library.AList"
begin

section \<open>Python values\<close>

text \<open>
  A Python \<open>str\<close> is a sequence of Unicode code points. The pages that are crawled are
  Korean and \<open>clean\<close> names code points far beyond one byte, so a string is a list of
  code points here; \<open>ascii\<close> writes the ASCII ones.
\<close>

type_synonym ustr = "nat list"

definition ascii :: "string \<Rightarrow> ustr" where
  "ascii s = map of_char s"

text \<open>The values \<open>clean\<close> may be handed: it tests \<open>isinstance(text, str)\<close>.\<close>

datatype pyval = PNone | PBool bool | PInt int | is_PStr: PStr ustr

text \<open>
  Every \<open>except Exception\<close> of the crawler treats all exceptions alike, so it is enough
  to tell them apart by name.
\<close>

datatype exn =
  TimeoutException | WebDriverException | AttributeError | ValueError | OtherException nat

section \<open>Text normalisation (\<open>clean\<close>)\<close>

text \<open>
  \<open>str.replace(old, new)\<close>: one pass from the left over non-overlapping occurrences.
  With an empty \<open>old\<close> Python puts \<open>new\<close> before every code point and at the end.
\<close>

function replace :: "ustr \<Rightarrow> ustr \<Rightarrow> ustr \<Rightarrow> ustr" where
  "replace old new [] = (if old = [] then new else [])"
| "replace old new (c # cs) =
     (if old = [] then new @ c # replace old new cs
      else if take (length old) (c # cs) = old
        then new @ replace old new (drop (length old) (c # cs))
      else c # replace old new cs)"
  by pat_completeness auto
termination
  by (relation "measure (\<lambda>(old, new, s). length s)") auto

text \<open>The code points for which \<open>str.isspace\<close> holds; \<open>str.strip()\<close> removes these.\<close>

definition isspace :: "nat \<Rightarrow> bool" where
  "isspace c \<longleftrightarrow>
     (9 \<le> c \<and> c \<le> 13) \<or> (28 \<le> c \<and> c \<le> 32) \<or> c = 133 \<or> c = 160 \<or> c = 5760
     \<or> (8192 \<le> c \<and> c \<le> 8202) \<or> c = 8232 \<or> c = 8233 \<or> c = 8239 \<or> c = 8287
     \<or> c = 12288"

definition strip :: "ustr \<Rightarrow> ustr" where
  "strip s = rev (dropWhile isspace (rev (dropWhile isspace s)))"

text \<open>
  The junk tokens, by code point: the bullet U+2022, the black square U+25A0, the
  newline, the two characters backslash and n, two spaces, the zero-width space U+200B,
  the non-breaking space U+00A0.
\<close>

definition clean :: "pyval \<Rightarrow> ustr" where
  "clean text =
     (case text of
        PStr t \<Rightarrow>
          strip (replace [160] [32] (replace [8203] [] (replace [32, 32] [32]
            (replace [92, 110] [32] (replace [10] [32] (replace [9632] []
              (replace [8226] [] t)))))))
      | _ \<Rightarrow> [])"

section \<open>Link discovery\<close>

text \<open>
  The browser is outside the program. A listing page is modelled by what each call of
  the driver answers: the page load, the wait for the first card, and for the \<open>k\<close>-th
  pass of the loop the anchors that
  \<open>soup.select('div[data-cy="job-card"] a[href^="/wd/"]')\<close> finds in the page source
  (each with the value of \<open>a.get("href")\<close>), the scroll with the pause that follows it
  (\<open>time.sleep(self.scroll_pause)\<close> raises when the pause is negative), and the height
  read after it. Every call may raise.
\<close>

record cycle =
  page_source :: "exn + ustr option list"
  scroll :: "exn option"
  scroll_height :: "exn + int"

record listing =
  get_list :: "exn option"
  wait_card :: "exn option"
  cycles :: "nat \<Rightarrow> cycle"

text \<open>
  \<open>hrefs\<close> is a Python \<open>set\<close>. It is kept as the list of its elements, each once, in the
  order in which they were first added; \<open>len\<close> is the length. The program cannot see this
  order: \<open>list(hrefs)\<close> lists a set in the order of its hash table, which Python leaves
  open. That order is the parameter \<open>set_iter\<close> of \<open>collect_job_links\<close>, and
  \<open>enumerates\<close> says what Python promises of it.
\<close>

definition add :: "'a \<Rightarrow> 'a list \<Rightarrow> 'a list" where
  "add x xs = (if x \<in> set xs then xs else xs @ [x])"

definition enumerates :: "(ustr list \<Rightarrow> ustr list) \<Rightarrow> bool" where
  "enumerates f \<longleftrightarrow> (\<forall>xs. distinct xs \<longrightarrow> distinct (f xs) \<and> set (f xs) = set xs)"

record session =
  hrefs :: "ustr list"
  void_cnt :: nat
  last_height :: int

text \<open>The \<open>for a in soup.select(...)\<close> loop: \<open>if href: hrefs.add(href)\<close>.\<close>

fun scan :: "ustr option list \<Rightarrow> ustr list \<Rightarrow> ustr list" where
  "scan [] hs = hs"
| "scan (a # as) hs =
     scan as (case a of None \<Rightarrow> hs | Some href \<Rightarrow> if href \<noteq> [] then add href hs else hs)"

text \<open>
  One pass of the \<open>while\<close> body ends in \<open>break\<close>, at the end of the body, or in an
  exception; the exception is returned with the session as it was when it was raised.
\<close>

datatype 'a flow = Break 'a | Next 'a

definition cycle_body :: "int \<Rightarrow> cycle \<Rightarrow> session \<Rightarrow> exn \<times> session + session flow" where
  "cycle_body max_links c s =
     (case page_source c of
        Inl e \<Rightarrow> Inl (e, s)
      | Inr anchors \<Rightarrow>
          let before_count = length (hrefs s);
              hs = scan anchors (hrefs s);
              added_count = int (length hs) - int before_count;
              s1 = s\<lparr>hrefs := hs,
                     void_cnt := (if added_count > 0 then 0 else void_cnt s + 1)\<rparr>
          in if int (length hs) \<ge> max_links then Inr (Break s1)
             else (case scroll c of
                     Some e \<Rightarrow> Inl (e, s1)
                   | None \<Rightarrow>
                       (case scroll_height c of
                          Inl e \<Rightarrow> Inl (e, s1)
                        | Inr new_height \<Rightarrow>
                            if new_height = last_height s1 then Inr (Break s1)
                            else Inr (Next (s1\<lparr>last_height := new_height\<rparr>)))))"

lemma length_add: "length xs \<le> length (add x xs)"
  by (simp add: add_def)

lemma length_scan: "length hs \<le> length (scan as hs)"
proof (induction as arbitrary: hs)
  case Nil
  show ?case by simp
next
  case (Cons a as)
  have "length hs \<le> length (case a of None \<Rightarrow> hs
          | Some href \<Rightarrow> if href \<noteq> [] then add href hs else hs)"
    by (simp add: length_add split: option.split)
  also have "\<dots> \<le> length (scan (a # as) hs)"
    using Cons.IH by simp
  finally show ?case .
qed

text \<open>
  What is left to do before the loop must stop: three passes for each link still
  missing, less the void passes already counted.
\<close>

definition pot :: "int \<Rightarrow> session \<Rightarrow> nat" where
  "pot max_links s = nat (3 * (max_links - int (length (hrefs s))) - int (void_cnt s))"

lemma cycle_body_Next_pot:
  assumes "cycle_body max_links c s = Inr (Next s')"
    and "int (length (hrefs s)) < max_links" and "void_cnt s < 3"
  shows "pot max_links s' < pot max_links s"
proof -
  from assms(1) obtain anchors where src: "page_source c = Inr anchors"
    by (cases "page_source c") (auto simp: cycle_body_def)
  let ?hs = "scan anchors (hrefs s)"
  from assms(1) src have small: "int (length ?hs) < max_links"
    by (auto simp: cycle_body_def Let_def split: if_splits)
  from assms(1) src have h: "hrefs s' = ?hs"
    and v: "void_cnt s' = (if length ?hs > length (hrefs s) then 0 else void_cnt s + 1)"
    by (auto simp: cycle_body_def Let_def split: if_splits option.splits sum.splits)
  have ge: "length (hrefs s) \<le> length ?hs" by (rule length_scan)
  show ?thesis
  proof (cases "length ?hs > length (hrefs s)")
    case True
    with h v small assms(3) show ?thesis by (simp add: pot_def)
  next
    case False
    with ge have "length ?hs = length (hrefs s)" by simp
    with h v False assms(2,3) show ?thesis by (simp add: pot_def)
  qed
qed

text \<open>
  The \<open>while\<close> loop, from pass \<open>k\<close> on. Beside the session it returns the number of
  passes that were run (a counter the source does not keep).
\<close>

function discovery_loop ::
  "int \<Rightarrow> (nat \<Rightarrow> cycle) \<Rightarrow> nat \<Rightarrow> session \<Rightarrow> exn \<times> session + nat \<times> session" where
  "discovery_loop max_links cs k s =
     (if int (length (hrefs s)) < max_links \<and> void_cnt s < 3 then
        (case cycle_body max_links (cs k) s of
           Inl x \<Rightarrow> Inl x
         | Inr (Break s') \<Rightarrow> Inr (Suc k, s')
         | Inr (Next s') \<Rightarrow> discovery_loop max_links cs (Suc k) s')
      else Inr (k, s))"
  by pat_completeness auto
termination
  by (relation "measure (\<lambda>(max_links, cs, k, s). pot max_links s)")
     (auto intro: cycle_body_Next_pot)

declare discovery_loop.simps [simp del]

text \<open>\<open>xs[:n]\<close>: a negative \<open>n\<close> counts from the end.\<close>

definition slice_to :: "int \<Rightarrow> 'a list \<Rightarrow> 'a list" where
  "slice_to n xs = (if n < 0 then take (nat (int (length xs) + n)) xs else take (nat n) xs)"

definition session0 :: session where
  "session0 = \<lparr>hrefs = [], void_cnt = 0, last_height = 0\<rparr>"

text \<open>The \<open>try\<close> block of \<open>collect_job_links\<close>, and the function with its handler.\<close>

definition collect_try ::
  "(ustr list \<Rightarrow> ustr list) \<Rightarrow> int \<Rightarrow> listing \<Rightarrow> exn \<times> session + ustr list" where
  "collect_try set_iter max_links page =
     (case get_list page of
        Some e \<Rightarrow> Inl (e, session0)
      | None \<Rightarrow>
          (case wait_card page of
             Some e \<Rightarrow> Inl (e, session0)
           | None \<Rightarrow>
               (case discovery_loop max_links (cycles page) 0 session0 of
                  Inl x \<Rightarrow> Inl x
                | Inr (n, s) \<Rightarrow> Inr (slice_to max_links (set_iter (hrefs s))))))"

definition collect_job_links ::
  "(ustr list \<Rightarrow> ustr list) \<Rightarrow> int \<Rightarrow> listing \<Rightarrow> ustr list" where
  "collect_job_links set_iter max_links page =
     (case collect_try set_iter max_links page of Inl x \<Rightarrow> [] | Inr final_links \<Rightarrow> final_links)"

subsection \<open>The stopping conditions\<close>

text \<open>A pass in which no call of the driver raises.\<close>

definition quiet :: "cycle \<Rightarrow> bool" where
  "quiet c \<longleftrightarrow> \<not> isl (page_source c) \<and> scroll c = None \<and> \<not> isl (scroll_height c)"

text \<open>
  What the specification speaks of, read off the page alone: the links seen in the
  first \<open>k\<close> passes, a void pass (one that adds no link), and the three conditions as
  they stand after pass \<open>k\<close> (counted from 0). The height before the first pass is 0,
  the initial \<open>last_height\<close>.
\<close>

definition anchors_at :: "(nat \<Rightarrow> cycle) \<Rightarrow> nat \<Rightarrow> ustr option list" where
  "anchors_at cs k = (case page_source (cs k) of Inr as \<Rightarrow> as | Inl e \<Rightarrow> [])"

definition height_at :: "(nat \<Rightarrow> cycle) \<Rightarrow> nat \<Rightarrow> int" where
  "height_at cs k = (case scroll_height (cs k) of Inr h \<Rightarrow> h | Inl e \<Rightarrow> 0)"

fun seen :: "(nat \<Rightarrow> cycle) \<Rightarrow> nat \<Rightarrow> ustr list" where
  "seen cs 0 = []"
| "seen cs (Suc k) = scan (anchors_at cs k) (seen cs k)"

definition void_cycle :: "(nat \<Rightarrow> cycle) \<Rightarrow> nat \<Rightarrow> bool" where
  "void_cycle cs k \<longleftrightarrow> length (seen cs (Suc k)) = length (seen cs k)"

definition size_reached :: "int \<Rightarrow> (nat \<Rightarrow> cycle) \<Rightarrow> nat \<Rightarrow> bool" where
  "size_reached max_links cs k \<longleftrightarrow> max_links \<le> int (length (seen cs (Suc k)))"

definition height_stable :: "(nat \<Rightarrow> cycle) \<Rightarrow> nat \<Rightarrow> bool" where
  "height_stable cs k \<longleftrightarrow> height_at cs k = (if k = 0 then 0 else height_at cs (k - 1))"

definition three_void :: "(nat \<Rightarrow> cycle) \<Rightarrow> nat \<Rightarrow> bool" where
  "three_void cs k \<longleftrightarrow> 2 \<le> k \<and> void_cycle cs k \<and> void_cycle cs (k - 1) \<and> void_cycle cs (k - 2)"

definition stop_after :: "int \<Rightarrow> (nat \<Rightarrow> cycle) \<Rightarrow> nat \<Rightarrow> bool" where
  "stop_after max_links cs k \<longleftrightarrow>
     size_reached max_links cs k \<or> height_stable cs k \<or> three_void cs k"

text \<open>The session that the loop holds after \<open>k\<close> passes without a stop.\<close>

fun voids :: "(nat \<Rightarrow> cycle) \<Rightarrow> nat \<Rightarrow> nat" where
  "voids cs 0 = 0"
| "voids cs (Suc k) = (if void_cycle cs k then voids cs k + 1 else 0)"

definition state_at :: "(nat \<Rightarrow> cycle) \<Rightarrow> nat \<Rightarrow> session" where
  "state_at cs k =
     \<lparr>hrefs = seen cs k, void_cnt = voids cs k,
      last_height = (if k = 0 then 0 else height_at cs (k - 1))\<rparr>"

subsection \<open>Stub pages\<close>

text \<open>
  \<open>static_page links\<close> shows the same anchors at every pass and grows at every scroll;
  \<open>failing_page\<close> shows one card and raises when its height is read.
\<close>

definition wd :: "nat \<Rightarrow> ustr" where
  "wd n = [47, 119, 100, 47, 97 + n]"

definition links12 :: "ustr list" where
  "links12 = [wd 0, wd 1, wd 2, wd 3, wd 4, wd 5, wd 6, wd 7, wd 8, wd 9, wd 10, wd 11]"

definition links5 :: "ustr list" where
  "links5 = [wd 0, wd 1, wd 2, wd 3, wd 4]"

definition static_page :: "ustr list \<Rightarrow> listing" where
  "static_page links =
     \<lparr>get_list = None, wait_card = None,
      cycles = (\<lambda>k. \<lparr>page_source = Inr (map Some links), scroll = None,
                         scroll_height = Inr (int k + 1)\<rparr>)\<rparr>"

definition failing_page :: listing where
  "failing_page =
     \<lparr>get_list = None, wait_card = None,
      cycles = (\<lambda>k. \<lparr>page_source = Inr [Some (wd 0)], scroll = None,
                         scroll_height = Inl WebDriverException\<rparr>)\<rparr>"

section \<open>Detail pages\<close>

text \<open>
  A Python \<open>dict\<close> keeps its keys in the order of insertion: an association list whose
  keys are strings. The keys the crawler uses, the Korean ones by code point:
  \<open>k_due\<close> the closing date, \<open>k_place\<close> the work location, then the six section headings
  (position detail, main tasks, qualifications, preferred qualifications, hiring process,
  benefits) and \<open>k_career\<close>, which \<open>create_documents\<close> asks for.
\<close>

type_synonym pydict = "(ustr \<times> pyval) list"


definition k_url :: ustr where "k_url = ascii ''url''"
definition k_title :: ustr where "k_title = ascii ''title''"
definition k_company :: ustr where "k_company = ascii ''company''"
definition k_due :: ustr where "k_due = [47560, 44048, 51068]"
definition k_place :: ustr where "k_place = [44540, 47924, 51648, 50669]"
definition k_position :: ustr where "k_position = [54252, 51648, 49496, 49345, 49464]"
definition k_tasks :: ustr where "k_tasks = [51452, 50836, 50629, 47924]"
definition k_quals :: ustr where "k_quals = [51088, 44201, 50836, 44148]"
definition k_preferred :: ustr where "k_preferred = [50864, 45824, 49324, 54637]"
definition k_process :: ustr where "k_process = [52292, 50857, 32, 51204, 54805]"
definition k_benefits :: ustr where
  "k_benefits = [54812, 53469, 32, 48143, 32, 48373, 51648]"


definition has_key :: "pydict \<Rightarrow> ustr \<Rightarrow> bool" where
  "has_key d key \<longleftrightarrow> key \<in> set (map fst d)"

text \<open>\<open>sub in s\<close> on strings.\<close>

fun contains :: "ustr \<Rightarrow> ustr \<Rightarrow> bool" where
  "contains sub [] \<longleftrightarrow> sub = []"
| "contains sub (c # cs) \<longleftrightarrow> take (length sub) (c # cs) = sub \<or> contains sub cs"

subsection \<open>The parsed page\<close>

text \<open>
  BeautifulSoup is a library outside the program. A parsed page is modelled by what
  each query of \<open>parse_detail\<close> answers on it; a query for an element answers the
  element or None.
  \<^item> \<open>title_el\<close>: \<open>soup.select_one("header h1, header h2")\<close>;
    \<open>company_el\<close>: \<open>soup.select_one("header a[data-company-name]")\<close>.
  \<^item> \<open>due_article\<close>, \<open>work_article\<close>: \<open>soup.find("article", class_=...)\<close> for the two
    class names; on an article, \<open>find("h2")\<close> and \<open>find("span")\<close>.
  \<^item> \<open>intro_div\<close>: \<open>soup.select_one\<close> of the wrapper div; \<open>paragraphs\<close>: \<open>soup.select\<close>
    of the paragraph divs, in document order. On a div, \<open>find("h3")\<close>,
    \<open>select_one("span.wds-h4ga6o span")\<close> (seen through its
    \<open>get_text(separator="\n")\<close>), and \<open>get_text(separator=" ", strip=True)\<close> of the
    div itself.
  An element is seen through its text (\<open>.text\<close>, \<open>.get_text()\<close>). Taking an attribute
  of None raises AttributeError: \<open>deref\<close>.
\<close>

record tag =
  get_text :: ustr

record article =
  find_h2 :: "tag option"
  find_span :: "tag option"

record block =
  find_h3 :: "tag option"
  select_span :: "tag option"
  block_text :: ustr

record soup =
  title_el :: "tag option"
  company_el :: "tag option"
  due_article :: "article option"
  work_article :: "article option"
  intro_div :: "block option"
  paragraphs :: "block list"

definition deref :: "'a option \<Rightarrow> exn + 'a" where
  "deref x = (case x of None \<Rightarrow> Inl AttributeError | Some v \<Rightarrow> Inr v)"

definition andthen :: "exn + 'a \<Rightarrow> ('a \<Rightarrow> exn + 'b) \<Rightarrow> exn + 'b" where
  "andthen m f = (case m of Inl e \<Rightarrow> Inl e | Inr x \<Rightarrow> f x)"

text \<open>\<open>el.text\<close>, cleaned.\<close>

definition clean_text :: "tag option \<Rightarrow> exn + ustr" where
  "clean_text el = andthen (deref el) (\<lambda>t. Inr (clean (PStr (get_text t))))"

text \<open>\<open>extract_block(div)\<close>: the whole body is under \<open>try\<close>, and any exception gives "".\<close>

definition extract_block :: "block option \<Rightarrow> ustr" where
  "extract_block blk =
     (case andthen (deref blk) (\<lambda>d.
             let span = select_span d
             in if span \<noteq> None then clean_text span
                else Inr (clean (PStr (block_text d))))
      of Inl e \<Rightarrow> [] | Inr t \<Rightarrow> t)"

subsection \<open>Field extraction\<close>

text \<open>The local variables of \<open>parse_detail\<close> that one attempt fills (lines 136 to 182).\<close>

record fields =
  title :: ustr
  company :: ustr
  due_date :: ustr
  work_location :: ustr
  detail :: pydict

definition extract_due_date :: "article option \<Rightarrow> exn + ustr" where
  "extract_due_date art =
     (if art \<noteq> None then
        andthen (deref art) (\<lambda>a.
          let h2 = find_h2 a
          in andthen (if h2 \<noteq> None
                      then andthen (deref h2) (\<lambda>t. Inr (contains k_due (get_text t)))
                      else Inr False) (\<lambda>marked.
               if marked then
                 (let span = find_span a
                  in if span \<noteq> None then clean_text span else Inr [])
               else Inr []))
      else Inr [])"

definition extract_work_location :: "article option \<Rightarrow> exn + ustr" where
  "extract_work_location art =
     (if art \<noteq> None then
        andthen (deref art) (\<lambda>a.
          let span = find_span a
          in if span \<noteq> None then clean_text span else Inr [])
      else Inr [])"

definition detail0 :: pydict where
  "detail0 = [(k_position, PStr []), (k_tasks, PStr []), (k_quals, PStr []),
              (k_preferred, PStr []), (k_process, PStr []), (k_benefits, PStr [])]"

text \<open>The loop over the paragraph divs: \<open>if key in detail: detail[key] = value\<close>.\<close>

fun fill_sections :: "block list \<Rightarrow> pydict \<Rightarrow> exn + pydict" where
  "fill_sections [] d = Inr d"
| "fill_sections (blk # blks) d =
     (let h3 = find_h3 blk
      in if h3 = None then fill_sections blks d
         else (case clean_text h3 of
                 Inl e \<Rightarrow> Inl e
               | Inr key \<Rightarrow>
                   let val = extract_block (Some blk)
                   in fill_sections blks
                        (if has_key d key then AList.update key (PStr val) d else d)))"

definition extract_fields :: "soup \<Rightarrow> exn + fields" where
  "extract_fields sp =
     andthen (if title_el sp \<noteq> None then clean_text (title_el sp) else Inr []) (\<lambda>t.
     andthen (if company_el sp \<noteq> None then clean_text (company_el sp) else Inr []) (\<lambda>c.
     andthen (extract_due_date (due_article sp)) (\<lambda>due.
     andthen (extract_work_location (work_article sp)) (\<lambda>loc.
     andthen (fill_sections (paragraphs sp)
               (if intro_div sp \<noteq> None
                then AList.update k_position (PStr (extract_block (intro_div sp))) detail0
                else detail0)) (\<lambda>d.
     Inr \<lparr>title = t, company = c, due_date = due, work_location = loc, detail = d\<rparr>)))))"

text \<open>The dict \<open>result\<close> (lines 185 to 192); the keys of \<open>detail\<close> come last.\<close>

definition result_dict :: "ustr \<Rightarrow> fields \<Rightarrow> pydict" where
  "result_dict url fs =
     fold (\<lambda>(k, v). AList.update k v) (detail fs)
       [(k_url, PStr url), (k_title, PStr (title fs)), (k_company, PStr (company fs)),
        (k_due, PStr (due_date fs)), (k_place, PStr (work_location fs))]"

definition extract_result :: "ustr \<Rightarrow> soup \<Rightarrow> exn + pydict" where
  "extract_result url sp = andthen (extract_fields sp) (\<lambda>fs. Inr (result_dict url fs))"

subsection \<open>\<open>parse_detail\<close> and \<open>crawl_job_details\<close>\<close>










text \<open>
  The heading of a paragraph div as the loop reads it, the keys of \<open>detail\<close> and of
  \<open>result\<close>, and whether an attempt returns a record.
\<close>

definition heading_of :: "block \<Rightarrow> ustr option" where
  "heading_of b = (case find_h3 b of None \<Rightarrow> None | Some t \<Rightarrow> Some (clean (PStr (get_text t))))"

definition section_keys :: "ustr list" where
  "section_keys = [k_position, k_tasks, k_quals, k_preferred, k_process, k_benefits]"

definition result_keys :: "ustr list" where
  "result_keys = [k_url, k_title, k_company, k_due, k_place] @ section_keys"


subsection \<open>Stub postings\<close>

text \<open>
  A page without any of the elements and a page with a title only; an attempt that
  finds the first and one that finds the second; a posting that answers with the first
  page, then with the second, and the record it gives.
\<close>

definition empty_soup :: soup where
  "empty_soup = \<lparr>title_el = None, company_el = None, due_article = None, work_article = None,
                  intro_div = None, paragraphs = []\<rparr>"






section \<open>Documents, the index and the run\<close>





record document =
  page_content :: ustr
  metadata :: pydict




text \<open>
  The vector store is outside the program: \<open>add_documents j batch\<close> is what its \<open>j\<close>-th
  call (from 0) answers on \<open>batch\<close>, None when it returns and an exception when it
  throws. The ids, fresh from \<open>uuid4\<close>, are left out. The loop
  \<open>for i in range(0, len(documents), batch_size)\<close> is run from index \<open>i\<close>; its state is
  the list of the batches handed to the store so far (a log the source does not keep)
  and \<open>total_saved\<close>.
\<close>

definition batch_size :: nat where
  "batch_size = 10"

function save_batches ::
  "(nat \<Rightarrow> document list \<Rightarrow> exn option) \<Rightarrow> document list \<Rightarrow> nat
   \<Rightarrow> document list list \<times> nat \<Rightarrow> document list list \<times> nat" where
  "save_batches add_documents documents i (attempted, total_saved) =
     (if i < length documents then
        (let batch = take batch_size (drop i documents)
         in case add_documents (length attempted) batch of
              None \<Rightarrow>
                save_batches add_documents documents (i + batch_size)
                  (attempted @ [batch], total_saved + length batch)
            | Some e \<Rightarrow>
                save_batches add_documents documents (i + batch_size)
                  (attempted @ [batch], total_saved))
      else (attempted, total_saved))"
  by pat_completeness auto
termination
  by (relation "measure (\<lambda>(add_documents, documents, i, st). length documents - i)")
     (auto simp: batch_size_def)

declare save_batches.simps [simp del]

text \<open>
  \<open>save_to_pinecone\<close>. Inside the outer \<open>try\<close> only \<open>add_documents\<close> can raise, and
  that is caught in the loop, so the outer handler is never entered.
\<close>

definition save_to_pinecone ::
  "(nat \<Rightarrow> document list \<Rightarrow> exn option) \<Rightarrow> document list \<Rightarrow> document list list \<times> nat" where
  "save_to_pinecone add_documents documents =
     (if documents = [] then ([], 0)
      else save_batches add_documents documents 0 ([], 0))"


text \<open>
  The summary line, without \<open>success_rate\<close> (a float, formatted from the first two
  counts) and the time stamp.
\<close>

record summary =
  total_links :: nat
  total_crawled :: nat
  total_saved :: nat
  backup_file :: "ustr option"




subsection \<open>What the claims speak of\<close>

text \<open>
  The number of documents in the batches whose call to the store returned, the calls
  counted from \<open>j\<close>; and the list cut into pieces of \<open>batch_size\<close>, the last one shorter
  when the length is no multiple of it.
\<close>

definition stored_from ::
  "(nat \<Rightarrow> document list \<Rightarrow> exn option) \<Rightarrow> nat \<Rightarrow> document list list \<Rightarrow> nat" where
  "stored_from add_documents j batches =
     sum_list (map (\<lambda>(n, b). if add_documents n b = None then length b else 0)
       (enumerate j batches))"

function chunks :: "'a list \<Rightarrow> 'a list list" where
  "chunks xs = (if xs = [] then [] else take batch_size xs # chunks (drop batch_size xs))"
  by pat_completeness auto
termination
  by (relation "measure length") (auto simp: batch_size_def)

declare chunks.simps [simp del]

subsection \<open>Stub runs\<close>

text \<open>
  Twenty-five documents and a store whose second call throws. Four runs that get past
  the start of the session: one whose listing raises, one whose only posting stays
  empty, one that crawls a posting while the store refuses every batch, and that one
  again with a negative delay.
\<close>

definition doc :: "nat \<Rightarrow> document" where
  "doc n = \<lparr>page_content = [n], metadata = []\<rparr>"

definition docs25 :: "document list" where
  "docs25 = map doc [0..<25]"

definition second_fails :: "nat \<Rightarrow> document list \<Rightarrow> exn option" where
  "second_fails j batch = (if j = 1 then Some (OtherException 0) else None)"





section \<open>Properties of \<open>clean\<close>\<close>

lemma replace_one_removes: "c \<notin> set new \<Longrightarrow> c \<notin> set (replace [c] new s)"
  by (induction "[c]" new s rule: replace.induct) (auto simp: drop_Cons')

lemma replace_keeps_out:
  "c \<notin> set s \<Longrightarrow> c \<notin> set new \<Longrightarrow> c \<notin> set (replace old new s)"
proof (induction old new s rule: replace.induct)
  case (1 old new)
  then show ?case by simp
next
  case (2 old new d ds)
  show ?case
  proof (cases "old = []")
    case True
    with 2 show ?thesis by simp
  next
    case False
    show ?thesis
    proof (cases "take (length old) (d # ds) = old")
      case True
      from "2.prems"(1) have "c \<notin> set (drop (length old) (d # ds))"
        by (meson in_set_dropD)
      with 2 False True show ?thesis by simp
    next
      case no: False
      with 2 False show ?thesis by simp
    qed
  qed
qed

lemma set_strip: "set (strip s) \<subseteq> set s"
proof -
  have "set (strip s) = set (dropWhile isspace (rev (dropWhile isspace s)))"
    by (simp add: strip_def)
  also have "\<dots> \<subseteq> set (rev (dropWhile isspace s))" by (rule set_dropWhileD [THEN subsetI])
  also have "\<dots> \<subseteq> set s" using set_dropWhileD [of _ isspace s] by auto
  finally show ?thesis .
qed

lemma last_dropWhile: "dropWhile P xs \<noteq> [] \<Longrightarrow> last (dropWhile P xs) = last xs"
  by (induction xs) (auto split: if_splits)

lemma strip_ends:
  assumes "strip s \<noteq> []"
  shows "\<not> isspace (hd (strip s)) \<and> \<not> isspace (last (strip s))"
proof -
  let ?a = "dropWhile isspace s"
  let ?b = "dropWhile isspace (rev ?a)"
  from assms have b: "?b \<noteq> []" by (simp only: strip_def rev_is_Nil_conv not_False_eq_True)
  then have hb: "\<not> isspace (hd ?b)" by (rule hd_dropWhile)
  have a: "?a \<noteq> []"
  proof
    assume "?a = []"
    then have "?b = []" by (simp only: rev.simps dropWhile.simps)
    with b show False by contradiction
  qed
  then have ha: "\<not> isspace (hd ?a)" by (rule hd_dropWhile)
  have "hd (strip s) = last ?b" using b by (simp only: strip_def hd_rev)
  also have "\<dots> = last (rev ?a)" using b by (rule last_dropWhile)
  also have "\<dots> = hd ?a" using a by (simp only: last_rev)
  finally have h: "hd (strip s) = hd ?a" .
  have "last (strip s) = hd ?b" using b by (simp only: strip_def last_rev)
  with h ha hb show ?thesis by simp
qed

text \<open>
  What \<open>clean\<close> does ensure on every input: no bullet, no black square, no newline,
  no zero-width space and no non-breaking space is left, and the output neither starts
  nor ends with white space.
\<close>

lemma clean_output:
  "8226 \<notin> set (clean v) \<and> 9632 \<notin> set (clean v) \<and> 10 \<notin> set (clean v)
   \<and> 8203 \<notin> set (clean v) \<and> 160 \<notin> set (clean v)
   \<and> (clean v \<noteq> [] \<longrightarrow> \<not> isspace (hd (clean v)) \<and> \<not> isspace (last (clean v)))"
proof (cases v)
  case (PStr t)
  let ?r1 = "replace [8226] [] t"
  let ?r2 = "replace [9632] [] ?r1"
  let ?r3 = "replace [10] [32] ?r2"
  let ?r4 = "replace [92, 110] [32] ?r3"
  let ?r5 = "replace [32, 32] [32] ?r4"
  let ?r6 = "replace [8203] [] ?r5"
  let ?r7 = "replace [160] [32] ?r6"
  have c: "clean v = strip ?r7" using PStr by (simp add: clean_def)
  have "8226 \<notin> set ?r1" by (simp add: replace_one_removes)
  then have "8226 \<notin> set ?r7" by (simp add: replace_keeps_out)
  then have 1: "8226 \<notin> set (clean v)" using set_strip c by fastforce
  have "9632 \<notin> set ?r2" by (simp add: replace_one_removes)
  then have "9632 \<notin> set ?r7" by (simp add: replace_keeps_out)
  then have 2: "9632 \<notin> set (clean v)" using set_strip c by fastforce
  have "10 \<notin> set ?r3" by (simp add: replace_one_removes)
  then have "10 \<notin> set ?r7" by (simp add: replace_keeps_out)
  then have 3: "10 \<notin> set (clean v)" using set_strip c by fastforce
  have "8203 \<notin> set ?r6" by (simp add: replace_one_removes)
  then have "8203 \<notin> set ?r7" by (simp add: replace_keeps_out)
  then have 4: "8203 \<notin> set (clean v)" using set_strip c by fastforce
  have "160 \<notin> set ?r7" by (simp add: replace_one_removes)
  then have 5: "160 \<notin> set (clean v)" using set_strip c by fastforce
  from c have 6: "clean v \<noteq> [] \<longrightarrow> \<not> isspace (hd (clean v)) \<and> \<not> isspace (last (clean v))"
    using strip_ends [of ?r7] by simp
  from 1 2 3 4 5 6 show ?thesis by blast
qed (simp_all add: clean_def)

text \<open>
  C7. The output of \<open>clean\<close> is to be trimmed and to hold none of the junk tokens:
  no bullet, no zero-width space, no non-breaking space, no newline, no literal
  backslash-n and no doubled space. The code replaces each token in one pass and in a
  fixed order, and two of the tokens survive. A run of three spaces (as three newlines in
  a row give) keeps two of them: "a   b" becomes "a  b". A backslash and an n that a
  zero-width space separates meet only after the backslash-n pass is over, and stay.
\<close>

theorem clean_leaves_junk:
  "clean (PStr [97, 32, 32, 32, 98]) = [97, 32, 32, 98]
   \<and> clean (PStr [97, 10, 10, 10, 98]) = [97, 32, 32, 98]
   \<and> clean (PStr [92, 8203, 110]) = [92, 110]"
  by (simp add: clean_def strip_def isspace_def)

text \<open>
  C10. For every input that is not a string (None, for one), \<open>clean\<close> returns the
  empty string.
\<close>

theorem clean_non_string: "\<not> is_PStr v \<Longrightarrow> clean v = []"
  by (cases v) (simp_all add: clean_def)

theorem clean_non_string_witness:
  "\<not> is_PStr PNone \<and> clean PNone = [] \<and> clean (PInt 7) = []"
  using clean_non_string [of PNone] clean_non_string [of "PInt 7"] by simp

section \<open>Properties of link discovery\<close>

lemma distinct_add: "distinct xs \<Longrightarrow> distinct (add x xs)"
  by (simp add: add_def)

lemma distinct_scan: "distinct hs \<Longrightarrow> distinct (scan as hs)"
  by (induction as arbitrary: hs) (auto simp: distinct_add split: option.split)

lemma cycle_body_distinct:
  assumes "distinct (hrefs s)"
  shows "cycle_body m c s = Inr (Break s') \<Longrightarrow> distinct (hrefs s')"
    and "cycle_body m c s = Inr (Next s') \<Longrightarrow> distinct (hrefs s')"
  using assms
  by (auto simp: cycle_body_def Let_def distinct_scan split: sum.splits option.splits if_splits)

lemma discovery_loop_distinct:
  "distinct (hrefs s) \<Longrightarrow> discovery_loop m cs k s = Inr (n, s') \<Longrightarrow> distinct (hrefs s')"
proof (induction m cs k s rule: discovery_loop.induct)
  case (1 m cs k s)
  show ?case
  proof (cases "int (length (hrefs s)) < m \<and> void_cnt s < 3")
    case False
    with "1.prems" show ?thesis by (simp add: discovery_loop.simps)
  next
    case True
    show ?thesis
    proof (cases "cycle_body m (cs k) s")
      case (Inl x)
      with True "1.prems" show ?thesis by (simp add: discovery_loop.simps)
    next
      case (Inr f)
      show ?thesis
      proof (cases f)
        case (Break t)
        with Inr True "1.prems" have "s' = t" by (simp add: discovery_loop.simps)
        with Break Inr "1.prems"(1) show ?thesis by (simp add: cycle_body_distinct(1))
      next
        case (Next t)
        with Inr True "1.prems" have run: "discovery_loop m cs (Suc k) t = Inr (n, s')"
          by (simp add: discovery_loop.simps)
        from Next Inr "1.prems"(1) have "distinct (hrefs t)"
          by (simp add: cycle_body_distinct(2))
        with "1.IH" True Inr Next run show ?thesis by simp
      qed
    qed
  qed
qed

lemma length_slice_to: "0 \<le> n \<Longrightarrow> int (length (slice_to n xs)) \<le> n"
  by (simp add: slice_to_def)

lemma distinct_slice_to: "distinct xs \<Longrightarrow> distinct (slice_to n xs)"
  by (simp add: slice_to_def)

lemma collect_job_links_cases:
  "collect_job_links f m page = [] \<or>
   (\<exists>n s. discovery_loop m (cycles page) 0 session0 = Inr (n, s)
      \<and> collect_job_links f m page = slice_to m (f (hrefs s)))"
  by (auto simp: collect_job_links_def collect_try_def split: option.splits sum.splits)

text \<open>
  C1, as the code has it. The links returned never repeat. Their number is at most
  \<open>max_links\<close> when \<open>max_links\<close> is not negative; \<open>max_links\<close> is
  \<open>int(os.getenv('MAX_LINKS', 500))\<close>, and for a negative one the loop is not entered
  and the result is empty, which is longer than \<open>max_links\<close> allows.
\<close>

theorem collect_job_links_bounded_distinct:
  assumes "enumerates set_iter"
  shows "distinct (collect_job_links set_iter max_links page)
     \<and> (0 \<le> max_links \<longrightarrow> int (length (collect_job_links set_iter max_links page)) \<le> max_links)
     \<and> (max_links < 0 \<longrightarrow> collect_job_links set_iter max_links page = [])"
proof -
  let ?r = "collect_job_links set_iter max_links page"
  consider (empty) "?r = []"
    | (run) n s where "discovery_loop max_links (cycles page) 0 session0 = Inr (n, s)"
        and "?r = slice_to max_links (set_iter (hrefs s))"
    using collect_job_links_cases [of set_iter max_links page] by blast
  then show ?thesis
  proof cases
    case empty
    then show ?thesis by simp
  next
    case run
    have "distinct (hrefs session0)" by (simp add: session0_def)
    then have d: "distinct (hrefs s)" using run(1) by (rule discovery_loop_distinct)
    with assms have ds: "distinct (set_iter (hrefs s))" by (simp add: enumerates_def)
    have neg: "?r = []" if "max_links < 0"
    proof -
      from that run(1) have "s = session0"
        by (simp add: discovery_loop.simps session0_def)
      with assms have "set (set_iter (hrefs s)) = {}"
        by (simp add: enumerates_def session0_def)
      with run(2) show ?thesis by (simp add: slice_to_def)
    qed
    from ds run(2) neg show ?thesis
      by (simp add: distinct_slice_to length_slice_to)
  qed
qed

theorem collect_job_links_bounded_distinct_witness:
  "enumerates rev \<and> distinct (collect_job_links rev 10 (static_page links12))
   \<and> int (length (collect_job_links rev 10 (static_page links12))) \<le> 10"
  using collect_job_links_bounded_distinct [of rev 10 "static_page links12"]
  by (simp add: enumerates_def)

text \<open>With \<open>MAX_LINKS=-1\<close> the empty result has length 0, which is not at most -1.\<close>

theorem collect_job_links_negative_cap:
  "\<not> int (length (collect_job_links rev (- 1) (static_page links12))) \<le> - 1"
  by (simp add: collect_job_links_def collect_try_def static_page_def discovery_loop.simps
      session0_def slice_to_def)

lemma scan_fresh:
  "distinct links \<Longrightarrow> [] \<notin> set links \<Longrightarrow> set links \<inter> set hs = {}
   \<Longrightarrow> scan (map Some links) hs = hs @ links"
proof (induction links arbitrary: hs)
  case Nil
  show ?case by simp
next
  case (Cons l links)
  from Cons.prems have "set links \<inter> set (hs @ [l]) = {}" by auto
  with Cons.prems have "scan (map Some links) (hs @ [l]) = (hs @ [l]) @ links"
    by (intro Cons.IH) auto
  with Cons.prems show ?case by (auto simp: add_def)
qed

text \<open>
  A first pass that finds twelve cards fills the set beyond the cap of ten; the loop
  breaks at once and the result is cut out of \<open>list(hrefs)\<close>.
\<close>

lemma first_pass_twelve:
  assumes "get_list page = None" and "wait_card page = None"
    and "page_source (cycles page 0) = Inr (map Some links)"
    and "distinct links" and "[] \<notin> set links" and "length links = 12"
  shows "collect_job_links set_iter 10 page = take 10 (set_iter links)"
proof -
  from assms(4,5) have sc: "scan (map Some links) [] = links"
    using scan_fresh [of links "[]"] by simp
  with assms(3,6) have "cycle_body 10 (cycles page 0) session0
      = Inr (Break \<lparr>hrefs = links, void_cnt = 0, last_height = 0\<rparr>)"
    by (simp add: cycle_body_def session0_def)
  moreover have "hrefs session0 = []" and "void_cnt session0 = 0"
    by (simp_all add: session0_def)
  ultimately have "discovery_loop 10 (cycles page) 0 session0
      = Inr (1, \<lparr>hrefs = links, void_cnt = 0, last_height = 0\<rparr>)"
    by (simp add: discovery_loop.simps [of 10 "cycles page" 0 session0])
  with assms(1,2) show ?thesis
    by (simp add: collect_job_links_def collect_try_def slice_to_def)
qed

lemma links12_facts: "distinct links12 \<and> [] \<notin> set links12 \<and> length links12 = 12"
  by (simp add: links12_def wd_def)

text \<open>
  C3, as the code has it. The links come back in the order in which Python lists the
  set, cut to \<open>max_links\<close>; nothing ties that order to the order of discovery. On a
  listing whose page shows 12 different cards, with a cap of 10, the result is the first
  10 of the set's own order: exactly 10 links, no two equal, all among the 12.
\<close>

theorem collect_job_links_twelve:
  assumes "enumerates set_iter"
    and "get_list page = None" and "wait_card page = None"
    and "page_source (cycles page 0) = Inr (map Some links)"
    and "distinct links" and "[] \<notin> set links" and "length links = 12"
  shows "collect_job_links set_iter 10 page = take 10 (set_iter links)
     \<and> length (collect_job_links set_iter 10 page) = 10
     \<and> distinct (collect_job_links set_iter 10 page)
     \<and> set (collect_job_links set_iter 10 page) \<subseteq> set links"
proof -
  from assms(2-7) have eq: "collect_job_links set_iter 10 page = take 10 (set_iter links)"
    by (rule first_pass_twelve)
  from assms(1,5) have d: "distinct (set_iter links)" and s: "set (set_iter links) = set links"
    by (simp_all add: enumerates_def)
  from d s assms(5) have "length (set_iter links) = length links"
    by (metis distinct_card)
  with assms(7) have len: "length (take 10 (set_iter links)) = 10" by simp
  from s have "set (take 10 (set_iter links)) \<subseteq> set links"
    using set_take_subset [of 10 "set_iter links"] by simp
  with eq len d show ?thesis by simp
qed

theorem collect_job_links_twelve_witness:
  "enumerates rev \<and> distinct links12 \<and> [] \<notin> set links12 \<and> length links12 = 12
   \<and> collect_job_links rev 10 (static_page links12) = take 10 (rev links12)
   \<and> length (collect_job_links rev 10 (static_page links12)) = 10"
  using collect_job_links_twelve [of rev "static_page links12" links12] links12_facts
  by (simp add: enumerates_def static_page_def)

text \<open>
  A set that lists its elements last-added first is a set as Python allows it. The
  stub listing of 12 cards then yields the last ten cards found, latest first, and not
  the first ten in discovery order.
\<close>

theorem collect_job_links_order_lost:
  "enumerates rev
   \<and> collect_job_links rev 10 (static_page links12)
       = [wd 11, wd 10, wd 9, wd 8, wd 7, wd 6, wd 5, wd 4, wd 3, wd 2]
   \<and> collect_job_links rev 10 (static_page links12) \<noteq> take 10 links12"
proof -
  have e: "enumerates rev" by (simp add: enumerates_def)
  have "collect_job_links rev 10 (static_page links12) = take 10 (rev links12)"
    using first_pass_twelve [of "static_page links12" links12 rev] links12_facts
    by (simp add: static_page_def)
  then have r: "collect_job_links rev 10 (static_page links12)
       = [wd 11, wd 10, wd 9, wd 8, wd 7, wd 6, wd 5, wd 4, wd 3, wd 2]"
    by (simp add: links12_def)
  have "[wd 11, wd 10, wd 9, wd 8, wd 7, wd 6, wd 5, wd 4, wd 3, wd 2] \<noteq> take 10 links12"
    by (simp add: links12_def wd_def)
  with e r show ?thesis by simp
qed

text \<open>
  C4, as the code has it. Whenever a call of the driver raises, before or inside the
  loop, the handler returns the empty list, also when links had been found by then;
  \<open>collect_job_links\<close> itself returns a list in every case.
\<close>

theorem collect_job_links_exception:
  "collect_try set_iter max_links page = Inl (e, s)
   \<Longrightarrow> collect_job_links set_iter max_links page = []"
  by (simp add: collect_job_links_def)

lemma failing_page_try:
  "collect_try rev 10 failing_page
     = Inl (WebDriverException, \<lparr>hrefs = [wd 0], void_cnt = 0, last_height = 0\<rparr>)"
  by (simp add: collect_try_def failing_page_def discovery_loop.simps [of _ _ 0]
      cycle_body_def session0_def add_def wd_def)

theorem collect_job_links_exception_witness:
  "collect_try rev 10 failing_page
     = Inl (WebDriverException, \<lparr>hrefs = [wd 0], void_cnt = 0, last_height = 0\<rparr>)
   \<and> collect_job_links rev 10 failing_page = []"
  using collect_job_links_exception [of rev 10 failing_page] failing_page_try by simp

text \<open>
  On \<open>failing_page\<close> the first pass finds one link, then reading the height raises:
  the set holds that link, and the result is empty all the same.
\<close>

theorem collect_job_links_drops_found:
  "collect_try rev 10 failing_page
     = Inl (WebDriverException, \<lparr>hrefs = [wd 0], void_cnt = 0, last_height = 0\<rparr>)
   \<and> collect_job_links rev 10 failing_page \<noteq> rev [wd 0]"
  using failing_page_try by (simp add: collect_job_links_def)

lemma voids_le: "voids cs k \<le> k"
  by (induction k) auto

lemma voids_three: "3 \<le> voids cs (Suc k) \<longleftrightarrow> three_void cs k"
proof (cases k)
  case 0
  then show ?thesis by (simp add: three_void_def)
next
  case (Suc j)
  show ?thesis
  proof (cases j)
    case 0
    with Suc show ?thesis using voids_le [of cs 0] by (simp add: three_void_def)
  next
    case (Suc i)
    with \<open>k = Suc j\<close> show ?thesis by (simp add: three_void_def numeral_2_eq_2)
  qed
qed

lemma state_at_0: "state_at cs 0 = session0"
  by (simp add: state_at_def session0_def)

lemma void_cycle_iff: "void_cycle cs k \<longleftrightarrow> \<not> length (seen cs k) < length (seen cs (Suc k))"
  using length_scan [of "seen cs k" "anchors_at cs k"] by (auto simp: void_cycle_def)

lemma cycle_body_at:
  assumes "quiet (cs k)"
  shows "cycle_body m (cs k) (state_at cs k) =
     (if size_reached m cs k \<or> height_stable cs k
      then Inr (Break ((state_at cs (Suc k))\<lparr>last_height := last_height (state_at cs k)\<rparr>))
      else Inr (Next (state_at cs (Suc k))))"
proof -
  from assms obtain as h where src: "page_source (cs k) = Inr as" and sc: "scroll (cs k) = None"
    and ht: "scroll_height (cs k) = Inr h"
    by (cases "page_source (cs k)"; cases "scroll_height (cs k)") (auto simp: quiet_def)
  have a: "anchors_at cs k = as" and b: "height_at cs k = h"
    using src ht by (simp_all add: anchors_at_def height_at_def)
  have v: "void_cycle cs k \<longleftrightarrow> \<not> length (seen cs k) < length (scan as (seen cs k))"
    using void_cycle_iff [of cs k] a by simp
  show ?thesis
    using src sc ht a b v
    by (simp add: cycle_body_def state_at_def Let_def size_reached_def height_stable_def)
qed

lemma pot_step:
  assumes "quiet (cs k)" and "int (length (seen cs k)) < m" and "voids cs k < 3"
    and "\<not> size_reached m cs k" and "\<not> height_stable cs k"
  shows "pot m (state_at cs (Suc k)) < pot m (state_at cs k)"
proof -
  from assms(1,4,5) have "cycle_body m (cs k) (state_at cs k) = Inr (Next (state_at cs (Suc k)))"
    by (simp add: cycle_body_at)
  moreover from assms(2,3) have "int (length (hrefs (state_at cs k))) < m"
    and "void_cnt (state_at cs k) < 3"
    by (simp_all add: state_at_def)
  ultimately show ?thesis by (rule cycle_body_Next_pot)
qed

lemma discovery_loop_from:
  assumes q: "\<forall>j. quiet (cs j)"
  shows "\<exists>n s. discovery_loop m cs k (state_at cs k) = Inr (n, s)
     \<and> k \<le> n \<and> n \<le> k + pot m (state_at cs k)
     \<and> (n = k \<longleftrightarrow> \<not> (int (length (seen cs k)) < m \<and> voids cs k < 3))
     \<and> (k < n \<longrightarrow> stop_after m cs (n - 1))
     \<and> (\<forall>j. k \<le> j \<and> Suc j < n \<longrightarrow> \<not> stop_after m cs j)"
proof (induction "pot m (state_at cs k)" arbitrary: k rule: less_induct)
  case less
  let ?go = "int (length (seen cs k)) < m \<and> voids cs k < 3"
  have hv: "hrefs (state_at cs k) = seen cs k" "void_cnt (state_at cs k) = voids cs k"
    by (simp_all add: state_at_def)
  show ?case
  proof (cases ?go)
    case False
    then have "discovery_loop m cs k (state_at cs k) = Inr (k, state_at cs k)"
      by (subst discovery_loop.simps) (auto simp: hv)
    with False show ?thesis by auto
  next
    case True
    from q have qk: "quiet (cs k)" by simp
    from True have potpos: "0 < pot m (state_at cs k)"
      by (simp add: pot_def hv)
    show ?thesis
    proof (cases "size_reached m cs k \<or> height_stable cs k")
      case stop: True
      with qk True have "discovery_loop m cs k (state_at cs k)
          = Inr (Suc k, (state_at cs (Suc k))\<lparr>last_height := last_height (state_at cs k)\<rparr>)"
        by (simp add: discovery_loop.simps [of m cs k] hv cycle_body_at)
      moreover from stop have "stop_after m cs k" by (auto simp: stop_after_def)
      ultimately show ?thesis using potpos True by auto
    next
      case go: False
      with qk True have unfold: "discovery_loop m cs k (state_at cs k)
          = discovery_loop m cs (Suc k) (state_at cs (Suc k))"
        by (simp add: discovery_loop.simps [of m cs k] hv cycle_body_at)
      from go qk True have dec: "pot m (state_at cs (Suc k)) < pot m (state_at cs k)"
        by (intro pot_step) auto
      from less [OF dec] obtain n s where
        run: "discovery_loop m cs (Suc k) (state_at cs (Suc k)) = Inr (n, s)"
        and ge: "Suc k \<le> n" and le: "n \<le> Suc k + pot m (state_at cs (Suc k))"
        and eq: "n = Suc k \<longleftrightarrow> \<not> (int (length (seen cs (Suc k))) < m \<and> voids cs (Suc k) < 3)"
        and st: "Suc k < n \<longrightarrow> stop_after m cs (n - 1)"
        and before: "\<forall>j. Suc k \<le> j \<and> Suc j < n \<longrightarrow> \<not> stop_after m cs j"
        by blast
      from go have small: "int (length (seen cs (Suc k))) < m"
        by (simp add: size_reached_def)
      have tv: "three_void cs k \<longleftrightarrow> n = Suc k"
        using eq small voids_three [of cs k] by auto
      have stop_k: "stop_after m cs k \<longleftrightarrow> n = Suc k"
        using go tv by (auto simp: stop_after_def)
      have 1: "k < n \<longrightarrow> stop_after m cs (n - 1)"
      proof (cases "n = Suc k")
        case True
        with stop_k show ?thesis by simp
      next
        case False
        with ge st show ?thesis by simp
      qed
      have 2: "\<forall>j. k \<le> j \<and> Suc j < n \<longrightarrow> \<not> stop_after m cs j"
      proof (intro allI impI)
        fix j assume j: "k \<le> j \<and> Suc j < n"
        show "\<not> stop_after m cs j"
        proof (cases "j = k")
          case True
          with j stop_k show ?thesis by simp
        next
          case False
          with j before show ?thesis by simp
        qed
      qed
      from unfold run ge le dec True 1 2 show ?thesis by auto
    qed
  qed
qed

text \<open>
  C2. When no call raises, the loop returns after at most \<open>3 * max_links\<close> passes,
  however the page grows. It runs no pass at all exactly when \<open>max_links \<le> 0\<close> (the
  size, 0, has reached the cap). Otherwise it stops after the first pass at whose end
  one of the three conditions holds: the size has reached \<open>max_links\<close>, the height is
  the one of the pass before, or this pass and the two before it added no link.
\<close>

theorem discovery_loop_stops:
  assumes "\<forall>j. quiet (cs j)"
  shows "\<exists>n s. discovery_loop max_links cs 0 session0 = Inr (n, s)
     \<and> n \<le> 3 * nat max_links
     \<and> (n = 0 \<longleftrightarrow> max_links \<le> 0)
     \<and> (0 < n \<longrightarrow> stop_after max_links cs (n - 1))
     \<and> (\<forall>j. Suc j < n \<longrightarrow> \<not> stop_after max_links cs j)"
proof -
  have "pot max_links (state_at cs 0) = 3 * nat max_links"
    by (simp add: pot_def state_at_def)
  with discovery_loop_from [OF assms, of max_links 0] show ?thesis
    by (auto simp: state_at_0)
qed


lemma static5_run:
  "discovery_loop 500 (cycles (static_page links5)) 0 session0
     = Inr (4, \<lparr>hrefs = links5, void_cnt = 3, last_height = 4\<rparr>)"
  by code_simp

lemma static5_stop:
  "stop_after 500 (cycles (static_page links5)) 3
   \<and> \<not> stop_after 500 (cycles (static_page links5)) 2
   \<and> \<not> stop_after 500 (cycles (static_page links5)) 1
   \<and> \<not> stop_after 500 (cycles (static_page links5)) 0"
  by code_simp

theorem discovery_loop_stops_witness:
  "(\<forall>j. quiet (cycles (static_page links5) j))
   \<and> (\<exists>n s. discovery_loop 500 (cycles (static_page links5)) 0 session0 = Inr (n, s)
     \<and> n = 4 \<and> n \<le> 3 * nat 500
     \<and> stop_after 500 (cycles (static_page links5)) (n - 1)
     \<and> (\<forall>j. Suc j < n \<longrightarrow> \<not> stop_after 500 (cycles (static_page links5)) j))"
proof -
  have q: "\<forall>j. quiet (cycles (static_page links5) j)"
    by (simp add: quiet_def static_page_def)
  from discovery_loop_stops [OF q, of 500] static5_run show ?thesis
    using q by auto
qed

section \<open>Properties of field extraction\<close>

lemmas key_defs = k_url_def k_title_def k_company_def k_due_def k_place_def k_position_def
  k_tasks_def k_quals_def k_preferred_def k_process_def k_benefits_def ascii_def

lemma clean_text_Some [simp]: "clean_text (Some t) = Inr (clean (PStr (get_text t)))"
  by (simp add: clean_text_def deref_def andthen_def)

lemma andthen_Inr [simp]: "andthen (Inr x) f = f x"
  by (simp add: andthen_def)

lemma guarded_text:
  "(if el \<noteq> None then clean_text el else Inr [])
     = Inr (case el of None \<Rightarrow> [] | Some t \<Rightarrow> clean (PStr (get_text t)))"
  by (cases el) simp_all

lemma extract_due_date_total:
  "\<exists>t. extract_due_date art = Inr t
     \<and> (art = None \<or> (\<exists>a. art = Some a \<and> (find_h2 a = None \<or> find_span a = None)) \<longrightarrow> t = [])"
proof (cases art)
  case None
  then show ?thesis by (simp add: extract_due_date_def)
next
  case (Some a)
  show ?thesis
  proof (cases "find_h2 a")
    case None
    with Some show ?thesis by (simp add: extract_due_date_def deref_def)
  next
    case h2: (Some t)
    show ?thesis
    proof (cases "find_span a")
      case None
      with Some h2 show ?thesis by (simp add: extract_due_date_def deref_def)
    next
      case sp: (Some u)
      with Some h2 show ?thesis by (simp add: extract_due_date_def deref_def)
    qed
  qed
qed

lemma extract_work_location_total:
  "\<exists>t. extract_work_location art = Inr t
     \<and> (art = None \<or> (\<exists>a. art = Some a \<and> find_span a = None) \<longrightarrow> t = [])"
proof (cases art)
  case None
  then show ?thesis by (simp add: extract_work_location_def)
next
  case (Some a)
  then show ?thesis
    by (cases "find_span a") (simp_all add: extract_work_location_def deref_def)
qed

lemma update_present_keys: "has_key d k \<Longrightarrow> map fst (AList.update k v d) = map fst d"
  by (simp add: has_key_def update_keys)

lemma update_values:
  "\<forall>v \<in> snd ` set d. is_PStr v \<Longrightarrow> \<forall>v \<in> snd ` set (AList.update k (PStr t) d). is_PStr v"
  by (induction d) auto

lemma fill_sections_total:
  "\<exists>d'. fill_sections blks d = Inr d' \<and> map fst d' = map fst d
     \<and> ((\<forall>v \<in> snd ` set d. is_PStr v) \<longrightarrow> (\<forall>v \<in> snd ` set d'. is_PStr v))
     \<and> (\<forall>k. Some k \<notin> heading_of ` set blks \<longrightarrow> map_of d' k = map_of d k)"
proof (induction blks arbitrary: d)
  case Nil
  show ?case by simp
next
  case (Cons b blks)
  show ?case
  proof (cases "find_h3 b")
    case None
    with Cons.IH [of d] show ?thesis by (auto simp: heading_of_def)
  next
    case (Some t)
    let ?key = "clean (PStr (get_text t))"
    let ?d1 = "if has_key d ?key then AList.update ?key (PStr (extract_block (Some b))) d else d"
    from Some have step: "fill_sections (b # blks) d = fill_sections blks ?d1"
      by (simp add: Let_def)
    have keys: "map fst ?d1 = map fst d" by (simp add: update_present_keys)
    have strs: "(\<forall>v \<in> snd ` set d. is_PStr v) \<longrightarrow> (\<forall>v \<in> snd ` set ?d1. is_PStr v)"
      using update_values [of d ?key] by simp
    have other: "map_of ?d1 k = map_of d k" if "k \<noteq> ?key" for k
      using that by (simp add: update_conv')
    from Some have hd: "heading_of b = Some ?key" by (simp add: heading_of_def)
    from Cons.IH [of ?d1] obtain d' where
      r: "fill_sections blks ?d1 = Inr d'" and k: "map fst d' = map fst ?d1"
      and s: "(\<forall>v \<in> snd ` set ?d1. is_PStr v) \<longrightarrow> (\<forall>v \<in> snd ` set d'. is_PStr v)"
      and o: "\<forall>k. Some k \<notin> heading_of ` set blks \<longrightarrow> map_of d' k = map_of ?d1 k"
      by blast
    have "\<forall>k. Some k \<notin> heading_of ` set (b # blks) \<longrightarrow> map_of d' k = map_of d k"
    proof (intro allI impI)
      fix k assume a: "Some k \<notin> heading_of ` set (b # blks)"
      with hd have "k \<noteq> ?key" by auto
      with a o other [of k] show "map_of d' k = map_of d k" by auto
    qed
    with step r k keys s strs show ?thesis by (metis (no_types, lifting))
  qed
qed


lemma keys_distinct: "distinct result_keys"
  by (simp add: result_keys_def section_keys_def key_defs)

lemma six_keys:
  assumes "map fst d = section_keys"
  shows "\<exists>v1 v2 v3 v4 v5 v6. d = [(k_position, v1), (k_tasks, v2), (k_quals, v3),
            (k_preferred, v4), (k_process, v5), (k_benefits, v6)]"
  using assms by (auto simp: section_keys_def map_eq_Cons_conv)

lemma result_dict_shape:
  assumes "map fst (detail fs) = section_keys"
  shows "map fst (result_dict url fs) = result_keys"
    and "map_of (result_dict url fs) k_url = Some (PStr url)"
    and "map_of (result_dict url fs) k_title = Some (PStr (title fs))"
    and "map_of (result_dict url fs) k_company = Some (PStr (company fs))"
    and "map_of (result_dict url fs) k_due = Some (PStr (due_date fs))"
    and "map_of (result_dict url fs) k_place = Some (PStr (work_location fs))"
    and "\<forall>k \<in> set section_keys. map_of (result_dict url fs) k = map_of (detail fs) k"
proof -
  from six_keys [OF assms] obtain v1 v2 v3 v4 v5 v6 where
    d: "detail fs = [(k_position, v1), (k_tasks, v2), (k_quals, v3),
            (k_preferred, v4), (k_process, v5), (k_benefits, v6)]" by blast
  have r: "result_dict url fs =
     [(k_url, PStr url), (k_title, PStr (title fs)), (k_company, PStr (company fs)),
      (k_due, PStr (due_date fs)), (k_place, PStr (work_location fs)),
      (k_position, v1), (k_tasks, v2), (k_quals, v3),
      (k_preferred, v4), (k_process, v5), (k_benefits, v6)]"
    unfolding result_dict_def d by (simp add: key_defs)
  show "map fst (result_dict url fs) = result_keys"
    unfolding r by (simp add: result_keys_def section_keys_def)
  show "map_of (result_dict url fs) k_url = Some (PStr url)"
    unfolding r by simp
  show "map_of (result_dict url fs) k_title = Some (PStr (title fs))"
    unfolding r by (simp add: key_defs)
  show "map_of (result_dict url fs) k_company = Some (PStr (company fs))"
    unfolding r by (simp add: key_defs)
  show "map_of (result_dict url fs) k_due = Some (PStr (due_date fs))"
    unfolding r by (simp add: key_defs)
  show "map_of (result_dict url fs) k_place = Some (PStr (work_location fs))"
    unfolding r by (simp add: key_defs)
  show "\<forall>k \<in> set section_keys. map_of (result_dict url fs) k = map_of (detail fs) k"
    unfolding r d by (simp add: section_keys_def key_defs)
qed


lemma detail_start:
  fixes sp :: soup
  defines "d0 \<equiv> (if intro_div sp \<noteq> None
                then AList.update k_position (PStr (extract_block (intro_div sp))) detail0
                else detail0)"
  shows "map fst d0 = section_keys"
    and "\<forall>v \<in> snd ` set d0. is_PStr v"
    and "\<forall>k \<in> set section_keys. (k = k_position \<longrightarrow> intro_div sp = None)
           \<longrightarrow> map_of d0 k = Some (PStr [])"
  unfolding d0_def
  by (simp_all add: detail0_def section_keys_def key_defs)

text \<open>
  C6. Field extraction returns on every parsed page and never raises: each attribute
  is taken under a guard. The record has the 11 named keys and no other, every value is
  a string, and a field is the empty string when its element is absent: the title or
  company element; the closing-date article, its \<open>h2\<close> or its \<open>span\<close>; the work-place
  article or its \<open>span\<close>; for a section, every paragraph div under that heading (and
  the wrapper div, for the position detail).
\<close>

theorem extract_result_total:
  "\<exists>fs. extract_fields sp = Inr fs \<and> extract_result url sp = Inr (result_dict url fs)
     \<and> map fst (result_dict url fs) = result_keys
     \<and> length (result_dict url fs) = 11
     \<and> (\<forall>k \<in> set result_keys. \<exists>t. map_of (result_dict url fs) k = Some (PStr t))
     \<and> (title_el sp = None \<longrightarrow> map_of (result_dict url fs) k_title = Some (PStr []))
     \<and> (company_el sp = None \<longrightarrow> map_of (result_dict url fs) k_company = Some (PStr []))
     \<and> (due_article sp = None
          \<or> (\<exists>a. due_article sp = Some a \<and> (find_h2 a = None \<or> find_span a = None))
         \<longrightarrow> map_of (result_dict url fs) k_due = Some (PStr []))
     \<and> (work_article sp = None \<or> (\<exists>a. work_article sp = Some a \<and> find_span a = None)
         \<longrightarrow> map_of (result_dict url fs) k_place = Some (PStr []))
     \<and> (\<forall>k \<in> set section_keys.
           Some k \<notin> heading_of ` set (paragraphs sp) \<and> (k = k_position \<longrightarrow> intro_div sp = None)
           \<longrightarrow> map_of (result_dict url fs) k = Some (PStr []))"
proof -
  let ?d0 = "if intro_div sp \<noteq> None
             then AList.update k_position (PStr (extract_block (intro_div sp))) detail0
             else detail0"
  let ?t = "case title_el sp of None \<Rightarrow> [] | Some t \<Rightarrow> clean (PStr (get_text t))"
  let ?c = "case company_el sp of None \<Rightarrow> [] | Some t \<Rightarrow> clean (PStr (get_text t))"
  obtain due where due: "extract_due_date (due_article sp) = Inr due"
    and due_abs: "due_article sp = None
       \<or> (\<exists>a. due_article sp = Some a \<and> (find_h2 a = None \<or> find_span a = None)) \<longrightarrow> due = []"
    using extract_due_date_total [of "due_article sp"] by blast
  obtain loc where loc: "extract_work_location (work_article sp) = Inr loc"
    and loc_abs: "work_article sp = None \<or> (\<exists>a. work_article sp = Some a \<and> find_span a = None)
       \<longrightarrow> loc = []"
    using extract_work_location_total [of "work_article sp"] by blast
  obtain d where fill: "fill_sections (paragraphs sp) ?d0 = Inr d"
    and keys: "map fst d = map fst ?d0"
    and strs: "(\<forall>v \<in> snd ` set ?d0. is_PStr v) \<longrightarrow> (\<forall>v \<in> snd ` set d. is_PStr v)"
    and same: "\<forall>k. Some k \<notin> heading_of ` set (paragraphs sp) \<longrightarrow> map_of d k = map_of ?d0 k"
    using fill_sections_total [of "paragraphs sp" ?d0] by blast
  let ?fs = "\<lparr>title = ?t, company = ?c, due_date = due, work_location = loc, detail = d\<rparr>"
  let ?r = "result_dict url ?fs"
  have ef: "extract_fields sp = Inr ?fs"
    unfolding extract_fields_def guarded_text using due loc fill by simp
  then have er: "extract_result url sp = Inr ?r"
    by (simp add: extract_result_def)
  from keys have dk: "map fst (detail ?fs) = section_keys"
    using detail_start(1) [of sp] by simp
  note shape = result_dict_shape [OF dk, of url]
  have len: "length ?r = 11"
  proof -
    have "length ?r = length (map fst ?r)" by simp
    also have "\<dots> = length result_keys" by (simp only: shape(1))
    also have "\<dots> = 11" by (simp add: result_keys_def section_keys_def)
    finally show ?thesis .
  qed
  from strs detail_start(2) [of sp] have dstr: "\<forall>v \<in> snd ` set d. is_PStr v" by blast
  have sec_str: "\<exists>t. map_of d k = Some (PStr t)" if "k \<in> set section_keys" for k
  proof -
    from that keys detail_start(1) [of sp] have "k \<in> fst ` set d"
      by (metis list.set_map)
    then obtain v where v: "map_of d k = Some v"
      by (metis domD dom_map_of_conv_image_fst)
    then have "(k, v) \<in> set d" by (rule map_of_SomeD)
    with dstr have "is_PStr v" by force
    with v show ?thesis by (cases v) simp_all
  qed
  have all_str: "\<forall>k \<in> set result_keys. \<exists>t. map_of ?r k = Some (PStr t)"
  proof
    fix k assume "k \<in> set result_keys"
    then consider "k = k_url" | "k = k_title" | "k = k_company" | "k = k_due" | "k = k_place"
      | "k \<in> set section_keys"
      by (auto simp: result_keys_def)
    then show "\<exists>t. map_of ?r k = Some (PStr t)"
    proof cases
      case 6
      with shape(7) sec_str [of k] show ?thesis by simp
    qed (simp_all add: shape)
  qed
  have ti: "title_el sp = None \<longrightarrow> map_of ?r k_title = Some (PStr [])"
    using shape(3) by auto
  have co: "company_el sp = None \<longrightarrow> map_of ?r k_company = Some (PStr [])"
    using shape(4) by auto
  have du: "due_article sp = None
       \<or> (\<exists>a. due_article sp = Some a \<and> (find_h2 a = None \<or> find_span a = None))
      \<longrightarrow> map_of ?r k_due = Some (PStr [])"
    using due_abs shape(5) by auto
  have wo: "work_article sp = None \<or> (\<exists>a. work_article sp = Some a \<and> find_span a = None)
      \<longrightarrow> map_of ?r k_place = Some (PStr [])"
    using loc_abs shape(6) by auto
  have se: "\<forall>k \<in> set section_keys.
       Some k \<notin> heading_of ` set (paragraphs sp) \<and> (k = k_position \<longrightarrow> intro_div sp = None)
       \<longrightarrow> map_of ?r k = Some (PStr [])"
  proof (intro ballI impI)
    fix k assume k: "k \<in> set section_keys"
      and a: "Some k \<notin> heading_of ` set (paragraphs sp) \<and> (k = k_position \<longrightarrow> intro_div sp = None)"
    from k shape(7) have "map_of ?r k = map_of d k" by simp
    also from a same have "\<dots> = map_of ?d0 k" by simp
    also from k a detail_start(3) [of sp] have "\<dots> = Some (PStr [])" by simp
    finally show "map_of ?r k = Some (PStr [])" .
  qed
  show ?thesis
    by (rule exI [of _ ?fs]) (intro conjI ef er shape(1) len all_str ti co du wo se)
qed

lemma empty_soup_result:
  "extract_result [] empty_soup
      = Inr [(k_url, PStr []), (k_title, PStr []), (k_company, PStr []), (k_due, PStr []),
             (k_place, PStr []), (k_position, PStr []), (k_tasks, PStr []), (k_quals, PStr []),
             (k_preferred, PStr []), (k_process, PStr []), (k_benefits, PStr [])]"
  by (simp add: extract_result_def extract_fields_def extract_due_date_def
      extract_work_location_def empty_soup_def detail0_def result_dict_def key_defs)

theorem extract_result_total_witness:
  "title_el empty_soup = None \<and> company_el empty_soup = None \<and> due_article empty_soup = None
   \<and> work_article empty_soup = None \<and> intro_div empty_soup = None
   \<and> paragraphs empty_soup = []
   \<and> (\<exists>fs. extract_result [] empty_soup = Inr (result_dict [] fs)
         \<and> length (result_dict [] fs) = 11
         \<and> map_of (result_dict [] fs) k_title = Some (PStr [])
         \<and> map_of (result_dict [] fs) k_company = Some (PStr [])
         \<and> map_of (result_dict [] fs) k_due = Some (PStr [])
         \<and> map_of (result_dict [] fs) k_place = Some (PStr [])
         \<and> (\<forall>k \<in> set section_keys. map_of (result_dict [] fs) k = Some (PStr [])))"
proof -
  have e: "title_el empty_soup = None" "company_el empty_soup = None"
    "due_article empty_soup = None" "work_article empty_soup = None"
    "intro_div empty_soup = None" "paragraphs empty_soup = []"
    by (simp_all add: empty_soup_def)
  from extract_result_total [of empty_soup "[]"] e show ?thesis
    by (auto simp: e)
qed


section \<open>Properties of \<open>parse_detail\<close>\<close>

















section \<open>Properties of \<open>save_to_pinecone\<close>\<close>

lemma concat_chunks: "concat (chunks xs) = xs"
proof (induction xs rule: chunks.induct)
  case (1 xs)
  show ?case
  proof (cases "xs = []")
    case True
    then show ?thesis by (simp add: chunks.simps)
  next
    case False
    with "1.IH" have "concat (chunks (drop batch_size xs)) = drop batch_size xs" by simp
    with False show ?thesis by (subst chunks.simps) simp
  qed
qed

lemma chunks_sizes: "\<forall>b \<in> set (chunks xs). 0 < length b \<and> length b \<le> 10"
proof (induction xs rule: chunks.induct)
  case (1 xs)
  show ?case
  proof (cases "xs = []")
    case True
    then show ?thesis by (simp add: chunks.simps)
  next
    case False
    with "1.IH" have "\<forall>b \<in> set (chunks (drop batch_size xs)). 0 < length b \<and> length b \<le> 10"
      by simp
    with False show ?thesis by (subst chunks.simps) (simp add: batch_size_def)
  qed
qed

lemma chunks_full: "\<forall>b \<in> set (butlast (chunks xs)). length b = 10"
proof (induction xs rule: chunks.induct)
  case (1 xs)
  show ?case
  proof (cases "xs = []")
    case True
    then show ?thesis by (simp add: chunks.simps)
  next
    case False
    with "1.IH" have ih: "\<forall>b \<in> set (butlast (chunks (drop batch_size xs))). length b = 10"
      by simp
    show ?thesis
    proof (cases "drop batch_size xs = []")
      case True
      with False show ?thesis
        by (subst chunks.simps) (simp add: chunks.simps [of "[]"])
    next
      case more: False
      then have "chunks (drop batch_size xs) \<noteq> []"
        by (subst chunks.simps) simp
      moreover from more have "length (take batch_size xs) = 10"
        by (simp add: batch_size_def)
      ultimately show ?thesis using False ih
        by (subst chunks.simps) simp
    qed
  qed
qed

lemma save_batches_chunks:
  "save_batches add_documents documents i st
     = (fst st @ chunks (drop i documents),
        snd st + stored_from add_documents (length (fst st)) (chunks (drop i documents)))"
proof (induction add_documents documents i st rule: save_batches.induct)
  case (1 add_documents documents i attempted tot)
  show ?case
  proof (cases "i < length documents")
    case False
    then show ?thesis
      by (simp add: save_batches.simps chunks.simps [of "[]"] stored_from_def)
  next
    case True
    let ?batch = "take batch_size (drop i documents)"
    let ?rest = "chunks (drop (i + batch_size) documents)"
    from True have ch: "chunks (drop i documents) = ?batch # ?rest"
      by (subst chunks.simps) (simp add: add.commute)
    show ?thesis
    proof (cases "add_documents (length attempted) ?batch")
      case None
      with True have "save_batches add_documents documents i (attempted, tot)
          = save_batches add_documents documents (i + batch_size)
              (attempted @ [?batch], tot + length ?batch)"
        by (simp add: save_batches.simps [of _ _ i])
      also from True None
      have "\<dots> = ((attempted @ [?batch]) @ ?rest,
          (tot + length ?batch)
            + stored_from add_documents (length (attempted @ [?batch])) ?rest)"
        using "1.IH"(1) [of ?batch] by simp
      finally show ?thesis using None by (simp add: ch stored_from_def)
    next
      case (Some e)
      with True have "save_batches add_documents documents i (attempted, tot)
          = save_batches add_documents documents (i + batch_size)
              (attempted @ [?batch], tot)"
        by (simp add: save_batches.simps [of _ _ i])
      also from True Some
      have "\<dots> = ((attempted @ [?batch]) @ ?rest,
          tot + stored_from add_documents (length (attempted @ [?batch])) ?rest)"
        using "1.IH"(2) [of ?batch e] by simp
      finally show ?thesis using Some by (simp add: ch stored_from_def)
    qed
  qed
qed

lemma save_to_pinecone_chunks:
  "save_to_pinecone add_documents documents
     = (chunks documents, stored_from add_documents 0 (chunks documents))"
  by (simp add: save_to_pinecone_def save_batches_chunks chunks.simps [of "[]"] stored_from_def)

text \<open>
  C8. \<open>save_to_pinecone\<close> hands the documents to the store in batches that, put end to
  end, are the document list; every batch holds between 1 and 10 documents and every
  batch but the last holds 10. All batches are handed over whatever the store answers
  to earlier ones, and the count returned is the number of documents in the batches
  whose call returned.
\<close>

theorem save_to_pinecone_batches:
  "concat (fst (save_to_pinecone add_documents documents)) = documents
   \<and> (\<forall>b \<in> set (fst (save_to_pinecone add_documents documents)). 0 < length b \<and> length b \<le> 10)
   \<and> (\<forall>b \<in> set (butlast (fst (save_to_pinecone add_documents documents))). length b = 10)
   \<and> snd (save_to_pinecone add_documents documents)
       = stored_from add_documents 0 (fst (save_to_pinecone add_documents documents))"
  using chunks_sizes [of documents] chunks_full [of documents]
  by (simp add: save_to_pinecone_chunks concat_chunks)

lemma docs25_run:
  "save_to_pinecone second_fails docs25
     = ([map doc [0..<10], map doc [10..<20], map doc [20..<25]], 15)"
  by code_simp

theorem save_to_pinecone_batches_witness:
  "map length (fst (save_to_pinecone second_fails docs25)) = [10, 10, 5]
   \<and> concat (fst (save_to_pinecone second_fails docs25)) = docs25
   \<and> snd (save_to_pinecone second_fails docs25) = 15
   \<and> stored_from second_fails 0 (fst (save_to_pinecone second_fails docs25)) = 15"
  using save_to_pinecone_batches [of second_fails docs25] docs25_run
  by simp

section \<open>Properties of \<open>main\<close>\<close>















end
